theory Spec2Isabelle
  imports Complex_Main "HOL-Library.Char_ord" "HOL-Library.Multiset"
begin

section \<open>Tables of peptide-spectrum matches (\<^verbatim>\<open>dataset.py\<close>)\<close>

text \<open>
  A pandas data frame is modelled by its column names and its rows, in positional
  order. Index labels are left out: the constructor resets them, and every access the
  source makes afterwards (\<^verbatim>\<open>.values\<close>, \<^verbatim>\<open>iloc\<close>, boolean masks) is positional.
  A cell is a number or a string; floating point numbers are idealised as reals.
\<close>

datatype cell = Num real | Str string

record table =
  columns_of :: "string list"
  rows_of :: "cell list list"

datatype error = ValueError | IndexError | ZeroDivisionError | TypeError | AttributeError

record PsmDataset =
  data :: table

text \<open>
  \<^verbatim>\<open>str.lower()\<close> on column names. Characters are bytes here, so only the ASCII
  letters are folded.
\<close>

definition lower_char :: "char \<Rightarrow> char" where
  "lower_char c =
     (if CHR ''A'' \<le> c \<and> c \<le> CHR ''Z'' then char_of (of_char c + (32::nat)) else c)"

definition lower :: "string \<Rightarrow> string" where
  "lower s = map lower_char s"

text \<open>
  \<^verbatim>\<open>self.data.sample(frac=1).reset_index(drop=True)\<close>: pandas draws a permutation of
  the row positions from numpy's global generator and returns the rows in that order.
  The draw \<open>perm\<close> is an input of the model: neither \<^verbatim>\<open>__init__\<close> nor the call of
  \<^verbatim>\<open>sample\<close> passes a seed or a \<^verbatim>\<open>random_state\<close>.
\<close>

definition sample :: "nat list \<Rightarrow> table \<Rightarrow> table" where
  "sample perm df = df\<lparr>rows_of := map (\<lambda>i. rows_of df ! i) perm\<rparr>"

definition is_draw :: "nat list \<Rightarrow> nat \<Rightarrow> bool" where
  "is_draw perm n = (mset perm = mset [0..<n])"

definition columns :: "PsmDataset \<Rightarrow> string list" where
  "columns self = map lower (columns_of (data self))"

text \<open>\<^verbatim>\<open>list.index\<close>: the first position of a value, \<^verbatim>\<open>ValueError\<close> when absent.\<close>

fun index :: "'a list \<Rightarrow> 'a \<Rightarrow> error + nat" where
  "index [] x = Inl ValueError"
| "index (y # ys) x =
     (if y = x then Inr 0
      else case index ys x of Inl e \<Rightarrow> Inl e | Inr i \<Rightarrow> Inr (Suc i))"

text \<open>
  \<^verbatim>\<open>required_cols\<close> is a Python set; the loop over it is modelled in one fixed order
  (the positions it writes are pairwise different, see \<open>rename_cols_nth\<close>).
\<close>

definition required_cols :: "string list" where
  "required_cols = [''label'', ''scannr'', ''peptide'', ''proteins'']"

fun rename_cols :: "string list \<Rightarrow> string list \<Rightarrow> string list \<Rightarrow> error + string list" where
  "rename_cols cols [] df_cols = Inr df_cols"
| "rename_cols cols (col_name # rest) df_cols =
     (case index cols col_name of
        Inl e \<Rightarrow> Inl e
      | Inr i \<Rightarrow> rename_cols cols rest (df_cols[i := col_name]))"

definition PsmDataset_init :: "nat list \<Rightarrow> table \<Rightarrow> error + PsmDataset" where
  "PsmDataset_init perm psm_data =
     (let self = \<lparr>data = sample perm psm_data\<rparr>;
          cols = columns self
      in if \<not> set required_cols \<subseteq> set cols then Inl ValueError
         else case rename_cols cols required_cols (columns_of (data self)) of
                Inl e \<Rightarrow> Inl e
              | Inr df_cols \<Rightarrow> Inr (self\<lparr>data := (data self)\<lparr>columns_of := df_cols\<rparr>\<rparr>))"

text \<open>
  \<^verbatim>\<open>self.data.label.values\<close>: the values of the column named \<^verbatim>\<open>label\<close> (attribute
  access on a data frame is by the exact name).
\<close>

definition label :: "PsmDataset \<Rightarrow> error + cell list" where
  "label self =
     (case index (columns_of (data self)) ''label'' of
        Inl e \<Rightarrow> Inl AttributeError
      | Inr i \<Rightarrow> Inr (map (\<lambda>r. r ! i) (rows_of (data self))))"

subsection \<open>Cross-validation folds: \<^verbatim>\<open>PsmDataset.split\<close>\<close>

text \<open>
  \<^verbatim>\<open>numpy.array_split(ary, k)\<close> cuts \<open>ary\<close> into \<open>k\<close> consecutive sections, the first
  \<open>len(ary) % k\<close> of \<open>len(ary) // k + 1\<close> rows and the others of \<open>len(ary) // k\<close>
  rows, and raises \<^verbatim>\<open>ValueError\<close> unless \<open>k > 0\<close>.
\<close>

fun chop :: "nat list \<Rightarrow> 'a list \<Rightarrow> 'a list list" where
  "chop [] xs = []"
| "chop (s # ss) xs = take s xs # chop ss (drop s xs)"

definition section_sizes :: "nat \<Rightarrow> nat \<Rightarrow> nat list" where
  "section_sizes n k = replicate (n mod k) (n div k + 1) @ replicate (k - n mod k) (n div k)"

definition array_split :: "'a list \<Rightarrow> int \<Rightarrow> error + 'a list list" where
  "array_split ary sections =
     (if sections \<le> 0 then Inl ValueError
      else Inr (chop (section_sizes (length ary) (nat sections)) ary))"

text \<open>
  \<^verbatim>\<open>pandas.concat\<close> of frames that all carry the same columns (the only use the source
  makes of it): the rows one after the other; \<^verbatim>\<open>ValueError\<close> on an empty list.
\<close>

definition pd_concat :: "table list \<Rightarrow> error + table" where
  "pd_concat dfs =
     (case dfs of
        [] \<Rightarrow> Inl ValueError
      | df # _ \<Rightarrow> Inr (df\<lparr>rows_of := concat (map rows_of dfs)\<rparr>))"

text \<open>
  The remainder rule:
  \<^verbatim>\<open>if len(splits[-1]) < num: splits[-2] = pd.concat(splits[-2:]); splits = splits[:-1]\<close>.
\<close>

definition merge_trailing :: "int \<Rightarrow> table list \<Rightarrow> error + table list" where
  "merge_trailing num splits =
     (if splits = [] then Inl IndexError
      else if int (length (rows_of (last splits))) < num then
        (case pd_concat (drop (length splits - 2) splits) of
           Inl e \<Rightarrow> Inl e
         | Inr merged \<Rightarrow>
             if length splits < 2 then Inl IndexError
             else Inr (butlast (splits[length splits - 2 := merged])))
      else Inr splits)"

text \<open>
  The loop that builds the train and test sets. Every partition goes through the
  constructor, which draws a fresh permutation: \<open>draws j\<close> is the draw of the \<open>j\<close>-th
  constructor call of this run of \<^verbatim>\<open>split\<close> (train set of fold \<open>idx\<close>: call \<open>2 * idx\<close>,
  its test set: call \<open>2 * idx + 1\<close>).
\<close>

fun assign_sets ::
  "(nat \<Rightarrow> nat list) \<Rightarrow> table list \<Rightarrow> nat list \<Rightarrow> error + (PsmDataset list \<times> PsmDataset list)"
where
  "assign_sets draws splits [] = Inr ([], [])"
| "assign_sets draws splits (idx # rest) =
     (case pd_concat (take idx splits @ drop (Suc idx) splits) of
        Inl e \<Rightarrow> Inl e
      | Inr train_split \<Rightarrow>
         (case PsmDataset_init (draws (2 * idx)) train_split of
            Inl e \<Rightarrow> Inl e
          | Inr tr \<Rightarrow>
             (case PsmDataset_init (draws (2 * idx + 1)) (splits ! idx) of
                Inl e \<Rightarrow> Inl e
              | Inr te \<Rightarrow>
                 (case assign_sets draws splits rest of
                    Inl e \<Rightarrow> Inl e
                  | Inr (train, test) \<Rightarrow> Inr (tr # train, te # test)))))"

definition split ::
  "(nat \<Rightarrow> nat list) \<Rightarrow> PsmDataset \<Rightarrow> int \<Rightarrow> error + (PsmDataset list \<times> PsmDataset list)"
where
  "split draws self folds =
     (case label self of
        Inl e \<Rightarrow> Inl e
      | Inr lab \<Rightarrow>
          if folds = 0 then Inl ZeroDivisionError
          else let num = int (length lab) div folds in
            (case array_split (rows_of (data self)) folds of
               Inl e \<Rightarrow> Inl e
             | Inr chunks \<Rightarrow>
                (case merge_trailing num (map (\<lambda>rs. (data self)\<lparr>rows_of := rs\<rparr>) chunks) of
                   Inl e \<Rightarrow> Inl e
                 | Inr splits \<Rightarrow> assign_sets draws splits [0..<length splits])))"

text \<open>The spectrum identifiers of a table: the cells of the column named \<^verbatim>\<open>scannr\<close>.\<close>

definition scannr :: "table \<Rightarrow> error + cell list" where
  "scannr df =
     (case index (columns_of df) ''scannr'' of
        Inl e \<Rightarrow> Inl AttributeError
      | Inr i \<Rightarrow> Inr (map (\<lambda>r. r ! i) (rows_of df)))"

text \<open>
  The column names of a constructed collection: at the first case-insensitive match of
  each required name stands the canonical name itself.
\<close>

definition canonical :: "string list \<Rightarrow> bool" where
  "canonical cols \<longleftrightarrow>
     (\<forall>c\<in>set required_cols. \<exists>i. index (map lower cols) c = Inr i \<and> cols ! i = c)"

subsection \<open>Example tables\<close>

definition ex_pin :: table where
  "ex_pin =
     \<lparr>columns_of = [''SpecId'', ''Label'', ''ScanNr'', ''score'', ''Peptide'', ''Proteins''],
      rows_of = [[Str ''a'', Num 1, Num 7, Num 2, Str ''PEP'', Str ''P1''],
                 [Str ''b'', Num (- 1), Num 7, Num 1, Str ''TIDE'', Str ''P2'']]\<rparr>"

definition ex_pin_missing :: table where
  "ex_pin_missing =
     \<lparr>columns_of = [''SpecId'', ''Label'', ''ScanNr'', ''score'', ''Peptide''],
      rows_of = [[Str ''a'', Num 1, Num 7, Num 2, Str ''PEP''],
                 [Str ''b'', Num (- 1), Num 7, Num 1, Str ''TIDE'']]\<rparr>"

definition ex_folds :: table where
  "ex_folds =
     \<lparr>columns_of = [''Label'', ''ScanNr'', ''score'', ''Peptide'', ''Proteins''],
      rows_of = [[Num 1, Num 1, Num 5, Str ''A'', Str ''P''],
                 [Num (- 1), Num 2, Num 4, Str ''B'', Str ''P''],
                 [Num 1, Num 3, Num 3, Str ''C'', Str ''P''],
                 [Num (- 1), Num 4, Num 2, Str ''D'', Str ''P''],
                 [Num 1, Num 5, Num 1, Str ''E'', Str ''P'']]\<rparr>"

definition ex_draws :: "nat \<Rightarrow> nat list" where
  "ex_draws j = (if j = 0 then [1, 0] else if j = 1 then [2, 0, 1]
                 else if j = 2 then [0, 2, 1] else [1, 0])"

section \<open>Properties of the constructor\<close>

lemma index_Inr_iff:
  "index xs x = Inr i \<longleftrightarrow> i < length xs \<and> xs ! i = x \<and> (\<forall>j<i. xs ! j \<noteq> x)"
proof (induction xs arbitrary: i)
  case Nil
  show ?case by simp
next
  case (Cons y ys)
  show ?case
  proof (cases "y = x")
    case True
    then show ?thesis by (cases i) auto
  next
    case False
    show ?thesis
    proof (cases i)
      case 0
      with False show ?thesis by (auto split: sum.splits)
    next
      case (Suc k)
      have "(\<forall>j<Suc k. (y # ys) ! j \<noteq> x) \<longleftrightarrow> (\<forall>j<k. ys ! j \<noteq> x)"
        using False by (auto simp: less_Suc_eq_0_disj)
      with Suc False Cons[of k] show ?thesis by (auto split: sum.splits)
    qed
  qed
qed

lemma index_mem: "x \<in> set xs \<Longrightarrow> \<exists>i. index xs x = Inr i"
  by (induction xs) (auto split: sum.splits)

lemma index_not_mem: "x \<notin> set xs \<Longrightarrow> index xs x = Inl ValueError"
  by (induction xs) (auto split: sum.splits)

lemma required_lower: "c \<in> set required_cols \<Longrightarrow> lower c = c"
  unfolding required_cols_def by (auto; code_simp)

lemma required_distinct: "distinct required_cols"
  by (simp add: required_cols_def)

lemma rename_cols_ok:
  "set req \<subseteq> set cols \<Longrightarrow> \<exists>r. rename_cols cols req df = Inr r"
proof (induction req arbitrary: df)
  case Nil
  show ?case by simp
next
  case (Cons c req)
  then obtain i where "index cols c = Inr i"
    using index_mem[of c cols] by auto
  with Cons show ?case by simp
qed

lemma rename_cols_length:
  "rename_cols cols req df = Inr r \<Longrightarrow> length r = length df"
  by (induction req arbitrary: df) (auto split: sum.splits)

lemma rename_cols_other:
  "rename_cols cols req df = Inr r \<Longrightarrow> (\<forall>c\<in>set req. index cols c \<noteq> Inr j) \<Longrightarrow>
   r ! j = df ! j"
proof (induction req arbitrary: df)
  case Nil
  then show ?case by simp
next
  case (Cons c req)
  then show ?case by (auto split: sum.splits)
qed

text \<open>
  Different required names have different first positions, so a later step of the
  renaming loop never overwrites an earlier one.
\<close>

lemma rename_cols_nth:
  "rename_cols cols req df = Inr r \<Longrightarrow> distinct req \<Longrightarrow> length df = length cols \<Longrightarrow>
   c \<in> set req \<Longrightarrow> index cols c = Inr i \<Longrightarrow> r ! i = c"
proof (induction req arbitrary: df)
  case Nil
  then show ?case by simp
next
  case (Cons a req)
  show ?case
  proof (cases "a = c")
    case True
    with Cons.prems have r: "rename_cols cols req (df[i := c]) = Inr r"
      and nin: "c \<notin> set req"
      by auto
    have "\<forall>c'\<in>set req. index cols c' \<noteq> Inr i"
      using nin Cons.prems(5) by (auto simp: index_Inr_iff)
    from rename_cols_other[OF r this] have "r ! i = (df[i := c]) ! i" .
    moreover have "i < length df"
      using Cons.prems(3,5) by (simp add: index_Inr_iff)
    ultimately show ?thesis by simp
  next
    case False
    with Cons.prems obtain k where k: "index cols a = Inr k"
      and r: "rename_cols cols req (df[k := a]) = Inr r"
      by (auto split: sum.splits)
    show ?thesis using Cons.IH[OF r] Cons.prems False by auto
  qed
qed

lemma rename_cols_lower:
  "rename_cols cols req df = Inr r \<Longrightarrow> map lower df = cols \<Longrightarrow>
   (\<forall>c\<in>set req. lower c = c) \<Longrightarrow> map lower r = cols"
proof (induction req arbitrary: df)
  case Nil
  then show ?case by simp
next
  case (Cons a req)
  then obtain k where k: "index cols a = Inr k"
    and r: "rename_cols cols req (df[k := a]) = Inr r"
    by (auto split: sum.splits)
  have "map lower (df[k := a]) = cols"
    using Cons.prems(2,3) k by (auto simp: index_Inr_iff map_update list_update_same_conv)
  from Cons.IH[OF r this] Cons.prems(3) show ?case by simp
qed

lemma PsmDataset_init_Inr:
  assumes "set required_cols \<subseteq> set (map lower (columns_of psm_data))"
  shows "\<exists>df_cols.
     rename_cols (map lower (columns_of psm_data)) required_cols (columns_of psm_data) = Inr df_cols
     \<and> PsmDataset_init perm psm_data =
         Inr \<lparr>data = \<lparr>columns_of = df_cols, rows_of = map (\<lambda>i. rows_of psm_data ! i) perm\<rparr>\<rparr>"
proof -
  from rename_cols_ok[OF assms] obtain r where
    r: "rename_cols (map lower (columns_of psm_data)) required_cols (columns_of psm_data) = Inr r"
    by blast
  with assms show ?thesis
    by (simp add: PsmDataset_init_def Let_def columns_def sample_def)
qed

lemma PsmDataset_init_Inl:
  assumes "\<not> set required_cols \<subseteq> set (map lower (columns_of psm_data))"
  shows "PsmDataset_init perm psm_data = Inl ValueError"
  using assms by (simp add: PsmDataset_init_def Let_def columns_def sample_def)

text \<open>
  Claim C6. Construction succeeds exactly when the four required names occur among the
  lower-cased column names; otherwise the result is \<^verbatim>\<open>ValueError\<close> and no object.
  On success the column at the first case-insensitive match of each required name
  carries the canonical lower-case name, and no other column name changes.
\<close>

theorem PsmDataset_init_schema:
  "((\<exists>self. PsmDataset_init perm psm_data = Inr self) \<longleftrightarrow>
      set required_cols \<subseteq> set (map lower (columns_of psm_data)))
   \<and> (\<not> set required_cols \<subseteq> set (map lower (columns_of psm_data)) \<longrightarrow>
        PsmDataset_init perm psm_data = Inl ValueError)
   \<and> (\<forall>self. PsmDataset_init perm psm_data = Inr self \<longrightarrow>
        length (columns_of (data self)) = length (columns_of psm_data)
        \<and> columns self = map lower (columns_of psm_data)
        \<and> set required_cols \<subseteq> set (columns_of (data self))
        \<and> (\<forall>c\<in>set required_cols. \<forall>i.
              index (map lower (columns_of psm_data)) c = Inr i \<longrightarrow>
              columns_of (data self) ! i = c)
        \<and> (\<forall>j. (\<forall>c\<in>set required_cols. index (map lower (columns_of psm_data)) c \<noteq> Inr j) \<longrightarrow>
              columns_of (data self) ! j = columns_of psm_data ! j))"
proof (cases "set required_cols \<subseteq> set (map lower (columns_of psm_data))")
  case False
  then show ?thesis using PsmDataset_init_Inl[OF False, of perm] by simp
next
  case True
  let ?cols = "map lower (columns_of psm_data)"
  from PsmDataset_init_Inr[OF True, of perm] obtain r where
    r: "rename_cols ?cols required_cols (columns_of psm_data) = Inr r" and
    i: "PsmDataset_init perm psm_data =
          Inr \<lparr>data = \<lparr>columns_of = r, rows_of = map (\<lambda>i. rows_of psm_data ! i) perm\<rparr>\<rparr>"
    by blast
  have len: "length r = length (columns_of psm_data)"
    using rename_cols_length[OF r] .
  have low: "map lower r = ?cols"
    using rename_cols_lower[OF r] required_lower by blast
  have nth: "\<And>c i. c \<in> set required_cols \<Longrightarrow> index ?cols c = Inr i \<Longrightarrow> r ! i = c"
    using rename_cols_nth[OF r required_distinct] by simp
  have oth: "\<And>j. (\<forall>c\<in>set required_cols. index ?cols c \<noteq> Inr j) \<Longrightarrow>
      r ! j = columns_of psm_data ! j"
    using rename_cols_other[OF r] by blast
  have mem: "set required_cols \<subseteq> set r"
  proof
    fix c
    assume c: "c \<in> set required_cols"
    with True obtain i where ii: "index ?cols c = Inr i"
      using index_mem[of c ?cols] by auto
    then have "i < length r" using len by (simp add: index_Inr_iff)
    moreover have "r ! i = c" using nth[OF c ii] .
    ultimately show "c \<in> set r" by (metis nth_mem)
  qed
  show ?thesis using True i len low nth oth mem by (simp add: columns_def)
qed

theorem PsmDataset_init_schema_witness:
  "set required_cols \<subseteq> set (map lower (columns_of ex_pin))
   \<and> (\<exists>self. PsmDataset_init [1, 0] ex_pin = Inr self
         \<and> set required_cols \<subseteq> set (columns_of (data self))
         \<and> columns_of (data self) ! 1 = ''label'' \<and> columns_of (data self) ! 0 = ''SpecId'')
   \<and> \<not> set required_cols \<subseteq> set (map lower (columns_of ex_pin_missing))
   \<and> PsmDataset_init [1, 0] ex_pin_missing = Inl ValueError"
proof -
  have h: "set required_cols \<subseteq> set (map lower (columns_of ex_pin))"
    by code_simp
  have i1: "index (map lower (columns_of ex_pin)) ''label'' = Inr 1"
    by code_simp
  have i0: "\<forall>c\<in>set required_cols. index (map lower (columns_of ex_pin)) c \<noteq> Inr 0"
    by code_simp
  have m: "\<not> set required_cols \<subseteq> set (map lower (columns_of ex_pin_missing))"
    by code_simp
  have l: "''label'' \<in> set required_cols"
    by (simp add: required_cols_def)
  from PsmDataset_init_schema[of "[1, 0]" ex_pin] h i1 i0 l
  have "\<exists>self. PsmDataset_init [1, 0] ex_pin = Inr self
         \<and> set required_cols \<subseteq> set (columns_of (data self))
         \<and> columns_of (data self) ! 1 = ''label'' \<and> columns_of (data self) ! 0 = ''SpecId''"
    by (auto simp: ex_pin_def)
  moreover from PsmDataset_init_schema[of "[1, 0]" ex_pin_missing] m
  have "PsmDataset_init [1, 0] ex_pin_missing = Inl ValueError"
    by blast
  ultimately show ?thesis using h m by blast
qed

section \<open>Properties of the fold partitioner\<close>

lemma chop_length [simp]: "length (chop ss xs) = length ss"
  by (induction ss arbitrary: xs) auto

lemma chop_concat: "concat (chop ss xs) = take (sum_list ss) xs"
proof (induction ss arbitrary: xs)
  case Nil show ?case by simp
next
  case (Cons s ss)
  have "take s xs @ take (sum_list ss) (drop s xs) = take (s + sum_list ss) xs"
    by (simp add: take_add)
  with Cons show ?case by simp
qed

lemma chop_map: "chop ss (map f xs) = map (map f) (chop ss xs)"
  by (induction ss arbitrary: xs) (auto simp: take_map drop_map)

lemma chop_nth_length:
  "sum_list ss \<le> length xs \<Longrightarrow> i < length ss \<Longrightarrow> length (chop ss xs ! i) = ss ! i"
proof (induction ss arbitrary: xs i)
  case Nil then show ?case by simp
next
  case (Cons s ss)
  then show ?case by (cases i) auto
qed

lemma section_sizes_length: "0 < k \<Longrightarrow> length (section_sizes n k) = k"
  by (simp add: section_sizes_def less_imp_le)

lemma section_sizes_sum: "0 < k \<Longrightarrow> sum_list (section_sizes n k) = n"
proof -
  assume k: "0 < k"
  have "sum_list (section_sizes n k) = (n mod k) * (n div k + 1) + (k - n mod k) * (n div k)"
    by (simp add: section_sizes_def sum_list_replicate)
  also have "\<dots> = n mod k + (n mod k + (k - n mod k)) * (n div k)"
    by (simp add: algebra_simps)
  also have "n mod k + (k - n mod k) = k" using k by (simp add: less_imp_le)
  finally show ?thesis by (simp add: mult.commute)
qed

lemma section_sizes_last: "0 < k \<Longrightarrow> last (section_sizes n k) = n div k"
proof -
  assume k: "0 < k"
  then have "0 < k - n mod k" by simp
  then obtain m where m: "k - n mod k = Suc m" by (cases "k - n mod k") auto
  have "last (replicate (Suc m) (n div k)) = n div k"
    by simp
  then show ?thesis
    unfolding section_sizes_def m by (simp del: replicate.simps)
qed

lemma section_sizes_nth:
  "i < k \<Longrightarrow> section_sizes n k ! i = (if i < n mod k then n div k + 1 else n div k)"
  by (auto simp: section_sizes_def nth_append)

lemma chop_last:
  "ss \<noteq> [] \<Longrightarrow> sum_list ss \<le> length xs \<Longrightarrow> length (last (chop ss xs)) = last ss"
proof -
  assume ne: "ss \<noteq> []" and le: "sum_list ss \<le> length xs"
  have c: "chop ss xs \<noteq> []" using ne by (cases ss) auto
  have "length (chop ss xs ! (length ss - 1)) = ss ! (length ss - 1)"
    using ne le by (intro chop_nth_length) auto
  then show ?thesis using ne c by (simp add: last_conv_nth)
qed

lemma rename_cols_id:
  "(\<forall>c\<in>set req. \<exists>i. index cols c = Inr i \<and> df ! i = c) \<Longrightarrow> rename_cols cols req df = Inr df"
  by (induction req) (auto simp: list_update_same_conv)

lemma PsmDataset_init_canonical:
  assumes "canonical (columns_of df)"
  shows "PsmDataset_init perm df = Inr \<lparr>data = sample perm df\<rparr>"
proof -
  have sub: "set required_cols \<subseteq> set (map lower (columns_of df))"
  proof
    fix c assume "c \<in> set required_cols"
    with assms obtain i where "index (map lower (columns_of df)) c = Inr i"
      unfolding canonical_def by blast
    then have "i < length (map lower (columns_of df))" "map lower (columns_of df) ! i = c"
      by (simp_all add: index_Inr_iff)
    then show "c \<in> set (map lower (columns_of df))" using nth_mem by blast
  qed
  have "rename_cols (map lower (columns_of df)) required_cols (columns_of df) = Inr (columns_of df)"
    using assms unfolding canonical_def by (intro rename_cols_id) simp
  with sub show ?thesis
    by (simp add: PsmDataset_init_def Let_def columns_def sample_def)
qed

lemma PsmDataset_init_is_canonical:
  assumes "PsmDataset_init perm df = Inr self"
  shows "canonical (columns_of (data self))"
  unfolding canonical_def
proof
  fix c assume c: "c \<in> set required_cols"
  from assms have ex: "\<exists>self. PsmDataset_init perm df = Inr self" by blast
  note S = PsmDataset_init_schema[of perm df]
  from S ex have sub: "set required_cols \<subseteq> set (map lower (columns_of df))" by blast
  with c obtain i where i: "index (map lower (columns_of df)) c = Inr i"
    using index_mem[of c "map lower (columns_of df)"] by auto
  from S assms have low: "columns self = map lower (columns_of df)" by blast
  from S assms c i have "columns_of (data self) ! i = c" by blast
  with i low show "\<exists>i. index (map lower (columns_of (data self))) c = Inr i \<and> columns_of (data self) ! i = c"
    by (auto simp: columns_def)
qed

lemma canonical_label:
  assumes "canonical cols"
  shows "\<exists>i. index cols ''label'' = Inr i"
proof -
  have "''label'' \<in> set required_cols" by (simp add: required_cols_def)
  with assms obtain i where "index (map lower cols) ''label'' = Inr i" "cols ! i = ''label''"
    unfolding canonical_def by blast
  then have "i < length cols" "cols ! i = ''label''" by (simp_all add: index_Inr_iff)
  then have "''label'' \<in> set cols" using nth_mem by metis
  then show ?thesis by (rule index_mem)
qed


lemma pd_concat_chunks:
  assumes "i < length chunks" "2 \<le> length chunks"
  shows "pd_concat (take i (map (\<lambda>rs. tbl\<lparr>rows_of := rs\<rparr>) chunks)
                    @ drop (Suc i) (map (\<lambda>rs. tbl\<lparr>rows_of := rs\<rparr>) chunks))
         = Inr (tbl\<lparr>rows_of := concat (take i chunks @ drop (Suc i) chunks)\<rparr>)"
proof -
  let ?others = "take i chunks @ drop (Suc i) chunks"
  have "length ?others = length chunks - 1" using assms by simp
  then have "?others \<noteq> []" using assms by auto
  then obtain c cs where c: "?others = c # cs" by (cases ?others) auto
  have "take i (map (\<lambda>rs. tbl\<lparr>rows_of := rs\<rparr>) chunks)
        @ drop (Suc i) (map (\<lambda>rs. tbl\<lparr>rows_of := rs\<rparr>) chunks)
        = map (\<lambda>rs. tbl\<lparr>rows_of := rs\<rparr>) ?others"
    by (simp add: take_map drop_map)
  then show ?thesis
    unfolding c by (simp add: pd_concat_def comp_def)
qed

lemma assign_sets_chunks:
  assumes "canonical (columns_of tbl)" "2 \<le> length chunks" "\<forall>i\<in>set idxs. i < length chunks"
  shows "assign_sets draws (map (\<lambda>rs. tbl\<lparr>rows_of := rs\<rparr>) chunks) idxs =
     Inr (map (\<lambda>i. \<lparr>data = sample (draws (2 * i))
                     (tbl\<lparr>rows_of := concat (take i chunks @ drop (Suc i) chunks)\<rparr>)\<rparr>) idxs,
          map (\<lambda>i. \<lparr>data = sample (draws (2 * i + 1)) (tbl\<lparr>rows_of := chunks ! i\<rparr>)\<rparr>) idxs)"
  using assms(3)
proof (induction idxs)
  case Nil
  show ?case by simp
next
  case (Cons i idxs)
  then have i: "i < length chunks" by simp
  have c1: "canonical (columns_of (tbl\<lparr>rows_of := concat (take i chunks @ drop (Suc i) chunks)\<rparr>))"
    using assms(1) by simp
  have c2: "canonical (columns_of (tbl\<lparr>rows_of := chunks ! i\<rparr>))"
    using assms(1) by simp
  show ?case
    using Cons i pd_concat_chunks[OF i assms(2), of tbl]
      PsmDataset_init_canonical[OF c1] PsmDataset_init_canonical[OF c2]
    by simp
qed

lemma merge_trailing_array_split:
  assumes "0 < k"
  shows "merge_trailing (int (length rows) div int k)
           (map (\<lambda>rs. tbl\<lparr>rows_of := rs\<rparr>) (chop (section_sizes (length rows) k) rows))
         = Inr (map (\<lambda>rs. tbl\<lparr>rows_of := rs\<rparr>) (chop (section_sizes (length rows) k) rows))"
proof -
  let ?ss = "section_sizes (length rows) k"
  have ne: "?ss \<noteq> []" using section_sizes_length[OF assms, of "length rows"] assms by auto
  then have cne: "chop ?ss rows \<noteq> []" by (cases ?ss) auto
  have "length (last (chop ?ss rows)) = last ?ss"
    using ne section_sizes_sum[OF assms, of "length rows"] by (intro chop_last) auto
  then have l: "length (last (chop ?ss rows)) = length rows div k"
    using section_sizes_last[OF assms] by simp
  have "int (length rows) div int k = int (length rows div k)"
    by (simp add: zdiv_int)
  with l cne show ?thesis
    by (simp add: merge_trailing_def last_map)
qed

lemma label_canonical:
  assumes "canonical (columns_of (data self))"
  shows "\<exists>lab. label self = Inr lab \<and> length lab = length (rows_of (data self))"
  using canonical_label[OF assms] by (auto simp: label_def)

lemma split_chunks:
  assumes "canonical (columns_of (data self))" "2 \<le> folds"
  shows "split draws self folds =
     Inr (map (\<lambda>i. \<lparr>data = sample (draws (2 * i))
                     ((data self)\<lparr>rows_of := concat (take i (chop (section_sizes (length (rows_of (data self))) (nat folds)) (rows_of (data self)))
                         @ drop (Suc i) (chop (section_sizes (length (rows_of (data self))) (nat folds)) (rows_of (data self))))\<rparr>)\<rparr>) [0..<nat folds],
          map (\<lambda>i. \<lparr>data = sample (draws (2 * i + 1))
                     ((data self)\<lparr>rows_of := chop (section_sizes (length (rows_of (data self))) (nat folds)) (rows_of (data self)) ! i\<rparr>)\<rparr>) [0..<nat folds])"
proof -
  let ?rows = "rows_of (data self)"
  let ?k = "nat folds"
  let ?chunks = "chop (section_sizes (length ?rows) ?k) ?rows"
  have k: "0 < ?k" "2 \<le> ?k" "int ?k = folds" using assms(2) by auto
  have len: "length ?chunks = ?k" using section_sizes_length[OF k(1)] by simp
  from label_canonical[OF assms(1)] obtain lab where
    lab: "label self = Inr lab" "length lab = length ?rows" by blast
  have as: "array_split ?rows folds = Inr ?chunks"
    using assms(2) by (simp add: array_split_def)
  have mt: "merge_trailing (int (length lab) div folds) (map (\<lambda>rs. (data self)\<lparr>rows_of := rs\<rparr>) ?chunks)
      = Inr (map (\<lambda>rs. (data self)\<lparr>rows_of := rs\<rparr>) ?chunks)"
    using merge_trailing_array_split[OF k(1), of ?rows "data self"] lab(2) k(3) by simp
  have idx: "\<forall>i\<in>set [0..<?k]. i < length ?chunks" using len by simp
  have l2: "2 \<le> length ?chunks" using len k(2) by simp
  show ?thesis
    using assms(2) lab as mt assign_sets_chunks[OF assms(1) l2 idx, of draws] len
    by (simp add: split_def Let_def)
qed

lemma is_draw_mset:
  assumes "is_draw perm (length xs)"
  shows "mset (map (\<lambda>i. xs ! i) perm) = mset xs"
proof -
  have "mset (map (\<lambda>i. xs ! i) perm) = image_mset (\<lambda>i. xs ! i) (mset perm)" by simp
  also have "\<dots> = image_mset (\<lambda>i. xs ! i) (mset [0..<length xs])"
    using assms by (simp add: is_draw_def)
  also have "\<dots> = mset (map (\<lambda>i. xs ! i) [0..<length xs])" by simp
  also have "\<dots> = mset xs" by (simp add: map_nth)
  finally show ?thesis .
qed

lemma is_draw_length: "is_draw perm n \<Longrightarrow> length perm = n"
proof -
  assume "is_draw perm n"
  then have "size (mset perm) = size (mset [0..<n])" by (simp add: is_draw_def)
  then show ?thesis by simp
qed

lemma distinct_concat_nth:
  "distinct (concat xss) \<Longrightarrow> i < j \<Longrightarrow> j < length xss \<Longrightarrow> set (xss ! i) \<inter> set (xss ! j) = {}"
proof (induction xss arbitrary: i j)
  case Nil
  then show ?case by simp
next
  case (Cons xs xss)
  from Cons.prems obtain j' where j: "j = Suc j'" by (cases j) auto
  show ?case
  proof (cases i)
    case 0
    have "set (xss ! j') \<subseteq> set (concat xss)" using Cons.prems j by auto
    with Cons.prems(1) 0 j show ?thesis by auto
  next
    case (Suc i')
    with Cons j show ?thesis by auto
  qed
qed

lemma merge_trailing_fires:
  assumes "2 \<le> length splits" "int (length (rows_of (last splits))) < num"
  shows "merge_trailing num splits =
     Inr (butlast (butlast splits)
          @ [(last (butlast splits))\<lparr>rows_of := rows_of (last (butlast splits)) @ rows_of (last splits)\<rparr>])"
proof -
  from assms(1) obtain xs b where x: "splits = xs @ [b]"
    by (cases splits rule: rev_cases) auto
  with assms(1) obtain ys a where y: "xs = ys @ [a]"
    by (cases xs rule: rev_cases) auto
  have sp: "splits = ys @ [a, b]" using x y by simp
  show ?thesis using assms(2) unfolding sp
    by (simp add: merge_trailing_def pd_concat_def butlast_append)
qed


lemma set_concat_nth: "set (concat xss) = (\<Union>i<length xss. set (xss ! i))"
proof -
  have "(!) xss ` {0..<length xss} = set xss"
    using nth_image[of "length xss" xss] by simp
  then have "set xss = (\<lambda>i. xss ! i) ` {..<length xss}"
    by (simp add: lessThan_atLeast0)
  then have "\<Union> (set ` set xss) = (\<Union>i<length xss. set (xss ! i))"
    by (simp add: image_image)
  then show ?thesis by simp
qed

lemma array_split_pos:
  "0 < k \<Longrightarrow> array_split xs k = Inr (chop (section_sizes (length xs) (nat k)) xs)"
  by (simp add: array_split_def)

lemma chop_sections_concat:
  "0 < k \<Longrightarrow> concat (chop (section_sizes (length xs) k) xs) = xs"
  by (simp add: chop_concat section_sizes_sum)

lemma chop_sections_nth_map:
  assumes "i < k"
  shows "chop (section_sizes (length xs) k) xs ! i =
         map (\<lambda>r. xs ! r) (chop (section_sizes (length xs) k) [0..<length xs] ! i)"
proof -
  have k: "0 < k" using assms by simp
  have "chop (section_sizes (length xs) k) (map (\<lambda>r. xs ! r) [0..<length xs]) =
        map (map (\<lambda>r. xs ! r)) (chop (section_sizes (length xs) k) [0..<length xs])"
    by (rule chop_map)
  then have "chop (section_sizes (length xs) k) xs =
        map (map (\<lambda>r. xs ! r)) (chop (section_sizes (length xs) k) [0..<length xs])"
    by (simp add: map_nth)
  then show ?thesis using assms section_sizes_length[OF k] by simp
qed

text \<open>
  Claim C2. A constructed collection of \<open>n\<close> rows split into \<open>k \<ge> 2\<close> folds: \<open>split\<close>
  returns; the row positions of the test partitions are the sections of \<open>[0..<n]\<close>,
  which are pairwise disjoint, cover every position and have total size \<open>n\<close>; train
  partition \<open>i\<close> holds the rows of all chunks but chunk \<open>i\<close>; each partition is its chunk
  reordered by the draw of its constructor call. The remainder rule does what the claim
  says on every chunk list it applies to. Inside \<open>split\<close> it never applies, since the last
  section of \<open>array_split\<close> has exactly \<open>n div k\<close> rows: \<open>k\<close> partitions are returned.
\<close>

theorem split_partitions:
  assumes "PsmDataset_init perm psm_data = Inr self" and "2 \<le> k"
  shows "\<exists>train test chunks ids.
      split draws self k = Inr (train, test)
    \<and> array_split (rows_of (data self)) k = Inr chunks
    \<and> array_split [0..<length (rows_of (data self))] k = Inr ids
    \<and> length test = nat k \<and> length train = nat k \<and> length chunks = nat k \<and> length ids = nat k
    \<and> concat ids = [0..<length (rows_of (data self))]
    \<and> (\<forall>i<nat k. \<forall>j<nat k. i \<noteq> j \<longrightarrow> set (ids ! i) \<inter> set (ids ! j) = {})
    \<and> (\<Union>i<nat k. set (ids ! i)) = {0..<length (rows_of (data self))}
    \<and> sum_list (map length ids) = length (rows_of (data self))
    \<and> (\<forall>i<nat k.
          chunks ! i = map (\<lambda>r. rows_of (data self) ! r) (ids ! i)
        \<and> data (test ! i) = sample (draws (2 * i + 1)) ((data self)\<lparr>rows_of := chunks ! i\<rparr>)
        \<and> data (train ! i) = sample (draws (2 * i))
              ((data self)\<lparr>rows_of := concat (take i chunks @ drop (Suc i) chunks)\<rparr>)
        \<and> (is_draw (draws (2 * i + 1)) (length (chunks ! i)) \<longrightarrow>
              mset (rows_of (data (test ! i))) = mset (chunks ! i)))
    \<and> (\<forall>num splits. 2 \<le> length splits \<longrightarrow> int (length (rows_of (last splits))) < num \<longrightarrow>
          merge_trailing num splits =
            Inr (butlast (butlast splits)
                 @ [(last (butlast splits))\<lparr>rows_of :=
                      rows_of (last (butlast splits)) @ rows_of (last splits)\<rparr>]))"
proof -
  let ?rows = "rows_of (data self)"
  let ?n = "length ?rows"
  let ?k = "nat k"
  let ?chunks = "chop (section_sizes ?n ?k) ?rows"
  let ?ids = "chop (section_sizes ?n ?k) [0..<?n]"
  let ?train = "map (\<lambda>i. \<lparr>data = sample (draws (2 * i))
      ((data self)\<lparr>rows_of := concat (take i ?chunks @ drop (Suc i) ?chunks)\<rparr>)\<rparr>) [0..<?k]"
  let ?test = "map (\<lambda>i. \<lparr>data = sample (draws (2 * i + 1))
      ((data self)\<lparr>rows_of := ?chunks ! i\<rparr>)\<rparr>) [0..<?k]"
  have k: "0 < ?k" "0 < k" using assms(2) by auto
  have can: "canonical (columns_of (data self))"
    using PsmDataset_init_is_canonical[OF assms(1)] .
  have sp: "split draws self k = Inr (?train, ?test)"
    using split_chunks[OF can assms(2)] .
  have a1: "array_split ?rows k = Inr ?chunks"
    using array_split_pos[OF k(2)] .
  have a2: "array_split [0..<?n] k = Inr ?ids"
    using array_split_pos[OF k(2), of "[0..<?n]"] by simp
  have l: "length ?chunks = ?k" "length ?ids = ?k" "length ?test = ?k" "length ?train = ?k"
    using section_sizes_length[OF k(1)] by simp_all
  have cc: "concat ?ids = [0..<?n]"
    using chop_sections_concat[OF k(1), of "[0..<?n]"] by simp
  have dis: "\<forall>i<?k. \<forall>j<?k. i \<noteq> j \<longrightarrow> set (?ids ! i) \<inter> set (?ids ! j) = {}"
  proof (intro allI impI)
    fix i j
    assume ij: "i < ?k" "j < ?k" "i \<noteq> j"
    have d: "distinct (concat ?ids)" unfolding cc by simp
    from ij consider "i < j" | "j < i" by linarith
    then show "set (?ids ! i) \<inter> set (?ids ! j) = {}"
    proof cases
      case 1
      show ?thesis using distinct_concat_nth[OF d 1] ij l by simp
    next
      case 2
      have "set (?ids ! j) \<inter> set (?ids ! i) = {}"
        using distinct_concat_nth[OF d 2] ij l by simp
      then show ?thesis by blast
    qed
  qed
  have "(\<Union>i<?k. set (?ids ! i)) = set (concat ?ids)"
    using set_concat_nth[of ?ids] l by simp
  then have un: "(\<Union>i<?k. set (?ids ! i)) = {0..<?n}" unfolding cc by simp
  have sm: "sum_list (map length ?ids) = ?n"
    using arg_cong[OF cc, of length] by (simp add: length_concat)
  have per: "\<forall>i<?k.
          ?chunks ! i = map (\<lambda>r. ?rows ! r) (?ids ! i)
        \<and> data (?test ! i) = sample (draws (2 * i + 1)) ((data self)\<lparr>rows_of := ?chunks ! i\<rparr>)
        \<and> data (?train ! i) = sample (draws (2 * i))
              ((data self)\<lparr>rows_of := concat (take i ?chunks @ drop (Suc i) ?chunks)\<rparr>)
        \<and> (is_draw (draws (2 * i + 1)) (length (?chunks ! i)) \<longrightarrow>
              mset (rows_of (data (?test ! i))) = mset (?chunks ! i))"
  proof (intro allI impI)
    fix i
    assume i: "i < ?k"
    have c: "?chunks ! i = map (\<lambda>r. ?rows ! r) (?ids ! i)"
      using chop_sections_nth_map[OF i] .
    have m: "is_draw (draws (2 * i + 1)) (length (?chunks ! i)) \<longrightarrow>
        mset (rows_of (data (?test ! i))) = mset (?chunks ! i)"
      using i is_draw_mset[of "draws (2 * i + 1)" "?chunks ! i"] by (simp add: sample_def)
    show "?chunks ! i = map (\<lambda>r. ?rows ! r) (?ids ! i)
        \<and> data (?test ! i) = sample (draws (2 * i + 1)) ((data self)\<lparr>rows_of := ?chunks ! i\<rparr>)
        \<and> data (?train ! i) = sample (draws (2 * i))
              ((data self)\<lparr>rows_of := concat (take i ?chunks @ drop (Suc i) ?chunks)\<rparr>)
        \<and> (is_draw (draws (2 * i + 1)) (length (?chunks ! i)) \<longrightarrow>
              mset (rows_of (data (?test ! i))) = mset (?chunks ! i))"
      using c m i by simp
  qed
  have mr: "\<forall>num splits. 2 \<le> length splits \<longrightarrow> int (length (rows_of (last splits))) < num \<longrightarrow>
          merge_trailing num splits =
            Inr (butlast (butlast splits)
                 @ [(last (butlast splits))\<lparr>rows_of :=
                      rows_of (last (butlast splits)) @ rows_of (last splits)\<rparr>])"
    using merge_trailing_fires by blast
  show ?thesis
    apply (rule exI[of _ ?train], rule exI[of _ ?test], rule exI[of _ ?chunks], rule exI[of _ ?ids])
    using sp a1 a2 l cc dis un sm per mr by blast
qed

end
